theory Spec2Isabelle
  imports Main "HOL-Library.Sublist"
begin

section \<open>Mail merge generator: the data model\<close>

text \<open>
  The development follows \<^verbatim>\<open>src/Project_S2.py\<close>, class \<^verbatim>\<open>MailMergeGenerator\<close>.
  A Python \<^verbatim>\<open>str\<close> is a \<^typ>\<open>string\<close>, one \<^typ>\<open>char\<close> per code point (the code points
  below 256). A row of \<^verbatim>\<open>csv_data\<close> is a \<^verbatim>\<open>Dict[str, str]\<close>, a map from column names to
  cell texts. An exception that a handler turns into text with \<^verbatim>\<open>str(e)\<close> is carried as
  that text.
\<close>

type_synonym row = "string \<rightharpoonup> string"

record generator =
  template_content :: string
  csv_data :: "row list"
  placeholders :: "string list"
  output_dir :: string
  current_delimiters :: "string \<times> string"
  errors :: "string list"

definition DEFAULT_DELIMITERS :: "string \<times> string" where
  "DEFAULT_DELIMITERS = (''{{'', ''}}'')"

text \<open>\<^verbatim>\<open>__init__\<close>\<close>

definition init :: generator where
  "init = \<lparr> template_content = '''', csv_data = [], placeholders = [],
            output_dir = ''output'', current_delimiters = DEFAULT_DELIMITERS,
            errors = [] \<rparr>"

text \<open>What opening and reading a file gives: the two handlers of the load methods
  tell \<^verbatim>\<open>FileNotFoundError\<close> from every other exception.\<close>

datatype 'a read_result = FileNotFound | ReadFailed string | Content 'a

section \<open>Library functions the code calls\<close>

text \<open>\<^verbatim>\<open>sep.join(xs)\<close> on a list of strings.\<close>

fun join :: "string \<Rightarrow> string list \<Rightarrow> string" where
  "join sep [] = []"
| "join sep [x] = x"
| "join sep (x # y # ys) = x @ sep @ join sep (y # ys)"

text \<open>
  \<^verbatim>\<open>list(dict.fromkeys(xs))\<close>: a dict keeps its keys in insertion order, and storing a key
  that is already there leaves the order alone.
\<close>

definition insert_key :: "'a list \<Rightarrow> 'a \<Rightarrow> 'a list" where
  "insert_key ks k = (if k \<in> set ks then ks else ks @ [k])"

definition dict_fromkeys :: "'a list \<Rightarrow> 'a list" where
  "dict_fromkeys xs = foldl insert_key [] xs"

subsection \<open>The regular expression of the extractor\<close>

text \<open>
  \<^verbatim>\<open>re.findall(re.escape(start) + '(.*?)' + re.escape(end), text)\<close>. The pattern is the
  literal start, a lazy group of characters other than the newline (the pattern is compiled
  without \<^verbatim>\<open>re.DOTALL\<close>), and the literal end. \<open>lazy_group\<close> grows the group one
  character at a time and stops at the first length where the end marker follows;
  \<open>ok\<close> is false while the match would be empty at a position where the scan must advance.
\<close>

definition newline :: char where
  "newline = CHR 0x0A"

fun lazy_group :: "string \<Rightarrow> bool \<Rightarrow> string \<Rightarrow> string \<Rightarrow> (string \<times> string) option" where
  "lazy_group e ok acc [] = (if ok \<and> e = [] then Some (rev acc, []) else None)"
| "lazy_group e ok acc (c # cs) =
     (if ok \<and> prefix e (c # cs) then Some (rev acc, drop (length e) (c # cs))
      else if c = newline then None
      else lazy_group e True (c # acc) cs)"

text \<open>A match that starts at the head of the text: the group and the text after the match.\<close>

definition match_here :: "string \<Rightarrow> string \<Rightarrow> bool \<Rightarrow> string \<Rightarrow> (string \<times> string) option" where
  "match_here s e must_advance tx =
     (if prefix s tx
      then lazy_group e (\<not> must_advance \<or> s \<noteq> [] \<or> e \<noteq> []) [] (drop (length s) tx)
      else None)"

lemma lazy_group_length:
  "lazy_group e ok acc tx = Some (g, rest) \<Longrightarrow>
     length g + length e + length rest = length acc + length tx"
proof (induction e ok acc tx rule: lazy_group.induct)
  case (1 e ok acc)
  then show ?case by (auto split: if_splits)
next
  case (2 e ok acc c cs)
  show ?case
  proof (cases "ok \<and> prefix e (c # cs)")
    case True
    then have "length e \<le> length (c # cs)" by (auto dest: prefix_length_le)
    with True "2.prems" show ?thesis by auto
  next
    case False
    with "2.prems" have nl: "c \<noteq> newline" and
      rec: "lazy_group e True (c # acc) cs = Some (g, rest)"
      by (auto split: if_splits)
    from "2.IH"[OF False nl rec] show ?thesis by simp
  qed
qed

lemma lazy_group_grows:
  "lazy_group e ok acc tx = Some (g, rest) \<Longrightarrow> length acc \<le> length g"
proof (induction e ok acc tx rule: lazy_group.induct)
  case (1 e ok acc)
  then show ?case by (auto split: if_splits)
next
  case (2 e ok acc c cs)
  show ?case
  proof (cases "ok \<and> prefix e (c # cs)")
    case True
    with "2.prems" show ?thesis by auto
  next
    case False
    with "2.prems" have nl: "c \<noteq> newline" and
      rec: "lazy_group e True (c # acc) cs = Some (g, rest)"
      by (auto split: if_splits)
    from "2.IH"[OF False nl rec] show ?thesis by simp
  qed
qed

lemma lazy_group_advance:
  "lazy_group e False acc tx = Some (g, rest) \<Longrightarrow> length acc < length g"
  by (cases tx) (auto split: if_splits dest: lazy_group_grows)

lemma match_here_length:
  "match_here s e b tx = Some (g, rest) \<Longrightarrow>
     length s + length g + length e + length rest = length tx"
proof -
  assume m: "match_here s e b tx = Some (g, rest)"
  then have p: "prefix s tx" by (auto simp: match_here_def split: if_splits)
  then have "length s \<le> length tx" by (rule prefix_length_le)
  moreover from m p have "length g + length e + length rest = length (drop (length s) tx)"
    by (auto simp: match_here_def dest: lazy_group_length)
  ultimately show ?thesis by simp
qed

lemma match_here_advance:
  assumes "match_here s e True tx = Some (g, rest)"
  shows "length rest < length tx"
proof (cases "s = [] \<and> e = []")
  case True
  with assms have "lazy_group [] False [] tx = Some (g, rest)"
    by (simp add: match_here_def)
  then have "0 < length g" by (auto dest: lazy_group_advance)
  with match_here_length[OF assms] show ?thesis by linarith
next
  case False
  then have "0 < length s \<or> 0 < length e" by simp
  with match_here_length[OF assms] show ?thesis by linarith
qed

text \<open>
  The scan of \<^verbatim>\<open>findall\<close>: after a match the search goes on where the match ended, and
  after an empty match the next one must not be empty at that same position; where nothing
  matches the search moves one character on.
\<close>

function findall_from :: "string \<Rightarrow> string \<Rightarrow> bool \<Rightarrow> string \<Rightarrow> string list" where
  "findall_from s e must_advance tx =
     (case match_here s e must_advance tx of
        Some (g, rest) \<Rightarrow> g # findall_from s e (length rest = length tx) rest
      | None \<Rightarrow> (case tx of [] \<Rightarrow> [] | c # cs \<Rightarrow> findall_from s e False cs))"
  by pat_completeness auto
termination
proof (relation "measure (\<lambda>(s, e, b, tx). 2 * length tx + (if b then 0 else 1))", goal_cases)
  case 1
  then show ?case by simp
next
  case (2 s e b tx c cs)
  then show ?case by auto
next
  case (3 s e b tx x g rest)
  then have m: "match_here s e b tx = Some (g, rest)" by simp
  from match_here_length[OF m] have le: "length rest \<le> length tx" by simp
  show ?case
  proof (cases b)
    case True
    with m have "length rest < length tx" by (auto dest: match_here_advance)
    then show ?thesis by simp
  next
    case False
    with le show ?thesis by auto
  qed
qed

declare findall_from.simps [simp del]

definition findall :: "string \<Rightarrow> string \<Rightarrow> string \<Rightarrow> string list" where
  "findall s e tx = findall_from s e False tx"

subsection \<open>Strings\<close>

text \<open>\<^verbatim>\<open>str(n)\<close> of a non-negative integer, as the f-strings of the writers format it.\<close>

fun str_nat :: "nat \<Rightarrow> string" where
  "str_nat n = (if n < 10 then [''0123456789'' ! n]
                else str_nat (n div 10) @ [''0123456789'' ! (n mod 10)])"

declare str_nat.simps [simp del]

text \<open>
  \<^verbatim>\<open>tx.replace(old, new)\<close>: the occurrences of \<open>old\<close> are taken from the left and do not
  overlap. An empty \<open>old\<close> matches before every character and at the end.
\<close>

function replace_from :: "string \<Rightarrow> string \<Rightarrow> string \<Rightarrow> string" where
  "replace_from old new tx =
     (if old \<noteq> [] \<and> prefix old tx then new @ replace_from old new (drop (length old) tx)
      else (case tx of [] \<Rightarrow> [] | c # cs \<Rightarrow> c # replace_from old new cs))"
  by pat_completeness auto
termination
proof (relation "measure (\<lambda>(old, new, tx). length tx)", goal_cases)
  case 1
  then show ?case by simp
next
  case (2 old new tx)
  then have "length old \<le> length tx" and "0 < length old"
    by (auto dest: prefix_length_le)
  then have "length tx - length old < length tx" by linarith
  then show ?case by simp
next
  case (3 old new tx c cs)
  then show ?case by simp
qed

declare replace_from.simps [simp del]

definition py_replace :: "string \<Rightarrow> string \<Rightarrow> string \<Rightarrow> string" where
  "py_replace old new tx =
     (if old = [] then new @ concat (map (\<lambda>c. c # new) tx) else replace_from old new tx)"

text \<open>\<^verbatim>\<open>str.isspace\<close> on one character, for the code points below 256, and \<^verbatim>\<open>str.strip()\<close>.\<close>

definition isspace :: "char \<Rightarrow> bool" where
  "isspace c \<longleftrightarrow>
     c \<in> set [CHR 0x09, CHR 0x0A, CHR 0x0B, CHR 0x0C, CHR 0x0D, CHR 0x1C, CHR 0x1D,
              CHR 0x1E, CHR 0x1F, CHR 0x20, CHR 0x85, CHR 0xA0]"

definition strip :: "string \<Rightarrow> string" where
  "strip tx = rev (dropWhile isspace (rev (dropWhile isspace tx)))"

text \<open>
  \<^verbatim>\<open>repr(s)\<close> of a string, as the text of an \<^verbatim>\<open>OSError\<close> shows the file name: single quotes
  unless the string has a single quote and no double quote; the quote and the backslash are
  escaped, tab, newline and carriage return have their letters, and every other character
  that is not printable is written in hexadecimal.
\<close>

definition printable :: "char \<Rightarrow> bool" where
  "printable c \<longleftrightarrow>
     (32 \<le> (of_char c :: nat) \<and> (of_char c :: nat) < 127)
     \<or> (161 \<le> (of_char c :: nat) \<and> (of_char c :: nat) \<noteq> 173)"

definition hex2 :: "nat \<Rightarrow> string" where
  "hex2 n = [''0123456789abcdef'' ! (n div 16 mod 16), ''0123456789abcdef'' ! (n mod 16)]"

definition repr_char :: "char \<Rightarrow> char \<Rightarrow> string" where
  "repr_char quote c =
     (if c = quote \<or> c = CHR 0x5C then [CHR 0x5C, c]
      else if c = CHR 0x09 then [CHR 0x5C, CHR ''t'']
      else if c = CHR 0x0A then [CHR 0x5C, CHR ''n'']
      else if c = CHR 0x0D then [CHR 0x5C, CHR ''r'']
      else if printable c then [c]
      else [CHR 0x5C, CHR ''x''] @ hex2 (of_char c))"

definition py_repr :: "string \<Rightarrow> string" where
  "py_repr s =
     (let quote = (if CHR 0x27 \<in> set s \<and> CHR 0x22 \<notin> set s then CHR 0x22 else CHR 0x27)
      in [quote] @ concat (map (repr_char quote) s) @ [quote])"

subsection \<open>The file system\<close>

text \<open>
  The writers see the file system through \<^verbatim>\<open>os.makedirs\<close>, \<^verbatim>\<open>os.path.join\<close>,
  \<^verbatim>\<open>os.path.exists\<close> and \<^verbatim>\<open>open(path, 'w')\<close>. A world lists the files and directories
  that exist, each under the list of names that leads to it from the root, which always
  exists; it has a current directory; and it says which calls the operating system refuses
  for reasons of its own (permissions, quotas, limits on names) and with which message.
  Symbolic links are not modelled. Section 1 of the specification leaves the creation of
  directories out of its scope: what \<^verbatim>\<open>os.makedirs\<close> does with the entries and a path is
  the world's own answer, the text of the exception or the entries it leaves.
\<close>

datatype node = File string | Directory

datatype errno = ENOENT | ENOTDIR | EISDIR

record world =
  entries :: "(string list \<times> node) list"
  cwd :: "string list"
  refuse_open :: "string \<Rightarrow> string option"
  makedirs_outcome :: "(string list \<times> node) list \<Rightarrow> string \<Rightarrow> string + (string list \<times> node) list"

definition node_at :: "world \<Rightarrow> string list \<Rightarrow> node option" where
  "node_at w pos = (if pos = [] then Some Directory else map_of (entries w) pos)"

text \<open>\<^verbatim>\<open>str(e)\<close> of the \<^verbatim>\<open>OSError\<close> that a system call raises for a path.\<close>

fun os_error_text :: "errno \<Rightarrow> string \<Rightarrow> string" where
  "os_error_text ENOENT p = ''[Errno 2] No such file or directory: '' @ py_repr p"
| "os_error_text ENOTDIR p = ''[Errno 20] Not a directory: '' @ py_repr p"
| "os_error_text EISDIR p = ''[Errno 21] Is a directory: '' @ py_repr p"

text \<open>The names of a path, the text between its slashes.\<close>

fun split_path :: "string \<Rightarrow> string list" where
  "split_path [] = [[]]"
| "split_path (c # cs) =
     (if c = CHR ''/'' then [] # split_path cs
      else (case split_path cs of [] \<Rightarrow> [[c]] | name # names \<Rightarrow> (c # name) # names))"

text \<open>
  Path resolution, one name after the other: a name is looked up in a directory only; the
  empty name and the dot stay, two dots go to the parent; the position reached must exist.
\<close>

fun walk :: "world \<Rightarrow> string list \<Rightarrow> string list \<Rightarrow> errno + string list" where
  "walk w pos [] = (case node_at w pos of None \<Rightarrow> Inl ENOENT | Some _ \<Rightarrow> Inr pos)"
| "walk w pos (name # names) =
     (case node_at w pos of
        None \<Rightarrow> Inl ENOENT
      | Some (File _) \<Rightarrow> Inl ENOTDIR
      | Some Directory \<Rightarrow>
          if name = [] \<or> name = ''.'' then walk w pos names
          else if name = ''..'' then walk w (butlast pos) names
          else (case node_at w (pos @ [name]) of
                  None \<Rightarrow> Inl ENOENT
                | Some _ \<Rightarrow> walk w (pos @ [name]) names))"

definition start_of :: "world \<Rightarrow> string \<Rightarrow> string list" where
  "start_of w p = (if prefix ''/'' p then [] else cwd w)"

definition resolve :: "world \<Rightarrow> string \<Rightarrow> errno + string list" where
  "resolve w p = (if p = [] then Inl ENOENT else walk w (start_of w p) (split_path p))"

text \<open>\<^verbatim>\<open>os.path.exists(p)\<close>: whether the path leads to a file or a directory.\<close>

definition path_exists :: "world \<Rightarrow> string \<Rightarrow> bool" where
  "path_exists w p \<longleftrightarrow> \<not> isl (resolve w p)"


text \<open>\<^verbatim>\<open>posixpath.join(a, b)\<close>\<close>

definition os_path_join :: "string \<Rightarrow> string \<Rightarrow> string" where
  "os_path_join a b =
     (if prefix ''/'' b then b
      else if a = [] \<or> suffix ''/'' a then a @ b
      else a @ ''/'' @ b)"

text \<open>\<^verbatim>\<open>os.makedirs(path, exist_ok=True)\<close>\<close>

definition makedirs :: "world \<Rightarrow> string \<Rightarrow> string + world" where
  "makedirs w p =
     (case makedirs_outcome w (entries w) p of
        Inl msg \<Rightarrow> Inl msg
      | Inr es \<Rightarrow> Inr (w\<lparr>entries := es\<rparr>))"

text \<open>
  \<^verbatim>\<open>with open(path, 'w', encoding='utf-8') as file: file.write(content)\<close>: the directory
  of the last name must exist; the file is created there, and an existing file is truncated
  and rewritten.
\<close>

definition write_file :: "world \<Rightarrow> string \<Rightarrow> string \<Rightarrow> string + world" where
  "write_file w p content =
     (case refuse_open w p of
        Some msg \<Rightarrow> Inl msg
      | None \<Rightarrow>
          if p = [] then Inl (os_error_text ENOENT p)
          else (case walk w (start_of w p) (butlast (split_path p)) of
                  Inl e \<Rightarrow> Inl (os_error_text e p)
                | Inr pos \<Rightarrow>
                    (case node_at w pos of
                       None \<Rightarrow> Inl (os_error_text ENOENT p)
                     | Some (File _) \<Rightarrow> Inl (os_error_text ENOTDIR p)
                     | Some Directory \<Rightarrow>
                         (let name = last (split_path p)
                          in if name = [] \<or> name = ''.'' \<or> name = ''..''
                             then Inl (os_error_text EISDIR p)
                             else (case node_at w (pos @ [name]) of
                                     Some Directory \<Rightarrow> Inl (os_error_text EISDIR p)
                                   | _ \<Rightarrow>
                                       Inr (w\<lparr>entries := (pos @ [name], File content) #
                                              filter (\<lambda>kv. fst kv \<noteq> pos @ [name]) (entries w)\<rparr>))))))"

text \<open>
  The collision loop of \<^verbatim>\<open>_generate_individual_files\<close>:
  \<^verbatim>\<open>while os.path.exists(output_path): ...; counter += 1\<close>. A world lists finitely many
  names and the decimal numerals grow without bound, so the loop ends.
\<close>

definition name_bound :: "world \<Rightarrow> nat" where
  "name_bound w = sum_list (map (\<lambda>kv. sum_list (map length (fst kv))) (entries w))"

lemma str_nat_bound: "n < 10 ^ length (str_nat n)"
proof (induction n rule: str_nat.induct)
  case (1 n)
  show ?case
  proof (cases "n < 10")
    case True
    then show ?thesis by (subst str_nat.simps) simp
  next
    case False
    with 1 have "n div 10 < 10 ^ length (str_nat (n div 10))" by simp
    then have "n < 10 * 10 ^ length (str_nat (n div 10))" by linarith
    with False show ?thesis by (subst str_nat.simps) simp
  qed
qed

lemma digit_no_slash: "d < 10 \<Longrightarrow> ''0123456789'' ! d \<noteq> CHR ''/''"
proof -
  assume "d < 10"
  then have "d \<in> {0, 1, 2, 3, 4, 5, 6, 7, 8, 9}" by auto
  then show ?thesis by auto
qed

lemma str_nat_no_slash: "CHR ''/'' \<notin> set (str_nat n)"
proof (induction n rule: str_nat.induct)
  case (1 n)
  show ?case
  proof (cases "n < 10")
    case True
    then have "''0123456789'' ! n \<noteq> CHR ''/''" by (rule digit_no_slash)
    with True show ?thesis by (subst str_nat.simps) auto
  next
    case False
    have "n mod 10 < 10" by simp
    then have "''0123456789'' ! (n mod 10) \<noteq> CHR ''/''" by (rule digit_no_slash)
    with False 1 show ?thesis by (subst str_nat.simps) auto
  qed
qed

lemma split_path_nonempty: "split_path p \<noteq> []"
  by (cases p) (simp_all split: list.splits)

lemma split_path_no_slash: "CHR ''/'' \<notin> set t \<Longrightarrow> split_path t = [t]"
  by (induction t) auto

lemma split_path_append_no_slash:
  "CHR ''/'' \<notin> set t \<Longrightarrow>
     split_path (p @ t) = butlast (split_path p) @ [last (split_path p) @ t]"
proof (induction p)
  case Nil
  then show ?case by (simp add: split_path_no_slash)
next
  case (Cons c p)
  from Cons have IH: "split_path (p @ t) = butlast (split_path p) @ [last (split_path p) @ t]"
    by simp
  obtain x xs where sp: "split_path p = x # xs"
    using split_path_nonempty[of p] by (cases "split_path p") auto
  show ?case
  proof (cases "c = CHR ''/''")
    case True
    with IH sp show ?thesis by simp
  next
    case False
    with IH sp show ?thesis by (cases xs) simp_all
  qed
qed

lemma walk_missing: "node_at w pos = None \<Longrightarrow> walk w pos names = Inl ENOENT"
  by (cases names) simp_all

lemma walk_append:
  "walk w pos (xs @ ys) = (case walk w pos xs of Inl e \<Rightarrow> Inl e | Inr q \<Rightarrow> walk w q ys)"
  by (induction xs arbitrary: pos) (auto simp: walk_missing split: option.splits node.splits)

lemma walk_last_name:
  assumes "walk w pos (xs @ [name]) = Inr r"
    and "name \<noteq> []" and "name \<noteq> ''.''" and "name \<noteq> ''..''"
  shows "\<exists>q. r = q @ [name] \<and> node_at w r \<noteq> None \<and> walk w pos xs = Inr q
             \<and> node_at w q = Some Directory"
proof -
  from assms(1) obtain q where q: "walk w pos xs = Inr q" and l: "walk w q [name] = Inr r"
    by (auto simp: walk_append split: sum.splits)
  from l assms(2,3,4) have "r = q @ [name] \<and> node_at w r \<noteq> None \<and> node_at w q = Some Directory"
    by (auto split: option.splits node.splits if_splits)
  with q show ?thesis by blast
qed

lemma node_at_name_bound:
  assumes "node_at w (q @ [name]) \<noteq> None"
  shows "length name \<le> name_bound w"
proof -
  from assms obtain v where "(q @ [name], v) \<in> set (entries w)"
    by (auto simp: node_at_def dest: map_of_SomeD)
  then have "sum_list (map length (q @ [name]))
               \<in> set (map (\<lambda>kv. sum_list (map length (fst kv))) (entries w))"
    by force
  then have "sum_list (map length (q @ [name])) \<le> name_bound w"
    unfolding name_bound_def by (rule member_le_sum_list) simp
  then show ?thesis by simp
qed

lemma os_path_join_keeps_end: "\<exists>pre. os_path_join a (b @ t) = pre @ t"
proof -
  have "os_path_join a (b @ t) = (b @ t) \<or> os_path_join a (b @ t) = a @ b @ t
        \<or> os_path_join a (b @ t) = a @ ''/'' @ b @ t"
    by (simp add: os_path_join_def)
  then show ?thesis by (metis append.assoc)
qed

lemma candidate_exists_bound:
  assumes "path_exists w (os_path_join dir (base @ ''_'' @ str_nat counter @ ''.txt''))"
  shows "counter < 10 ^ name_bound w"
proof -
  let ?t = "''_'' @ str_nat counter @ ''.txt''"
  obtain pre where p: "os_path_join dir (base @ ?t) = pre @ ?t"
    using os_path_join_keeps_end by blast
  have ns: "CHR ''/'' \<notin> set ?t" using str_nat_no_slash[of counter] by simp
  let ?name = "last (split_path pre) @ ?t"
  have sp: "split_path (pre @ ?t) = butlast (split_path pre) @ [?name]"
    using ns by (rule split_path_append_no_slash)
  from assms p obtain r where
    "walk w (start_of w (pre @ ?t)) (butlast (split_path pre) @ [?name]) = Inr r"
    unfolding path_exists_def resolve_def sp[symmetric]
    by (cases "walk w (start_of w (pre @ ?t)) (split_path (pre @ ?t))") (auto split: if_splits)
  moreover have "?name \<noteq> []" "?name \<noteq> ''.''" "?name \<noteq> ''..''"
    by (auto simp: append_eq_Cons_conv)
  ultimately obtain q where "r = q @ [?name]" "node_at w r \<noteq> None"
    using walk_last_name by blast
  then have "length ?name \<le> name_bound w" using node_at_name_bound by blast
  then have "length (str_nat counter) \<le> name_bound w" by simp
  then have "(10::nat) ^ length (str_nat counter) \<le> 10 ^ name_bound w"
    by (simp add: power_increasing)
  with str_nat_bound[of counter] show ?thesis by linarith
qed

function unused_path :: "world \<Rightarrow> string \<Rightarrow> string \<Rightarrow> string \<Rightarrow> nat \<Rightarrow> string" where
  "unused_path w dir base output_path counter =
     (if path_exists w output_path
      then unused_path w dir base
             (os_path_join dir (base @ ''_'' @ str_nat counter @ ''.txt'')) (counter + 1)
      else output_path)"
  by pat_completeness auto
termination
proof (relation "measure (\<lambda>(w, dir, base, output_path, counter).
         2 * (10 ^ name_bound w - counter)
         + (if path_exists w output_path then 1 else 0))", goal_cases)
  case 1
  then show ?case by simp
next
  case (2 w dir base output_path counter)
  let ?B = "(10::nat) ^ name_bound w"
  let ?next = "os_path_join dir (base @ ''_'' @ str_nat counter @ ''.txt'')"
  show ?case
  proof (cases "path_exists w ?next")
    case True
    then have "counter < ?B" by (rule candidate_exists_bound)
    with 2 True show ?thesis by simp
  next
    case False
    with 2 show ?thesis by simp
  qed
qed

declare unused_path.simps [simp del]

section \<open>The generator's methods\<close>

text \<open>\<^verbatim>\<open>_extract_placeholders\<close>\<close>

definition extract_placeholders :: "generator \<Rightarrow> generator" where
  "extract_placeholders st =
     (case current_delimiters st of
        (start, end) \<Rightarrow>
          st\<lparr>placeholders := dict_fromkeys (findall start end (template_content st))\<rparr>)"

text \<open>\<^verbatim>\<open>load_template\<close>; the outcome of opening and reading the file is an input.\<close>

definition load_template :: "generator \<Rightarrow> string \<Rightarrow> string read_result \<Rightarrow> generator \<times> bool" where
  "load_template st template_path file =
     (case file of
        Content data \<Rightarrow> (extract_placeholders (st\<lparr>template_content := data\<rparr>), True)
      | FileNotFound \<Rightarrow>
          (st\<lparr>errors := errors st @ [''Template file not found: '' @ template_path]\<rparr>, False)
      | ReadFailed msg \<Rightarrow>
          (st\<lparr>errors := errors st @ [''Error reading template: '' @ msg]\<rparr>, False))"

text \<open>\<^verbatim>\<open>set_delimiters\<close>\<close>

definition set_delimiters :: "generator \<Rightarrow> string \<Rightarrow> string \<Rightarrow> generator" where
  "set_delimiters st start end =
     (let st1 = st\<lparr>current_delimiters := (start, end)\<rparr>
      in if template_content st1 \<noteq> [] then extract_placeholders st1 else st1)"

text \<open>
  \<^verbatim>\<open>_validate_csv_headers\<close>: the list comprehension keeps the placeholders that are not
  keys of \<^verbatim>\<open>csv_data[0]\<close>. The index is evaluated once for each placeholder, so on an
  empty \<^verbatim>\<open>csv_data\<close> it raises IndexError at the first placeholder, and without
  placeholders nothing is indexed and nothing is missing.
\<close>

definition validate_csv_headers :: "generator \<Rightarrow> string + (generator \<times> bool)" where
  "validate_csv_headers st =
     (case placeholders st of
        [] \<Rightarrow> Inr (st, True)
      | _ # _ \<Rightarrow>
          (case csv_data st of
             [] \<Rightarrow> Inl ''list index out of range''
           | first_row # _ \<Rightarrow>
               (let missing = filter (\<lambda>ph. first_row ph = None) (placeholders st)
                in if missing \<noteq> []
                   then Inr (st\<lparr>errors := errors st @
                               [''CSV missing required columns: '' @ join '', '' missing]\<rparr>, False)
                   else Inr (st, True))))"

text \<open>
  \<^verbatim>\<open>load_csv_data\<close>. The rows are assigned to \<^verbatim>\<open>csv_data\<close> once the reader has been read
  to its end, before the two checks; an exception in the \<^verbatim>\<open>with\<close> block leaves the
  attribute as it was. The last handler also guards the call of the validation.
\<close>

definition load_csv_data :: "generator \<Rightarrow> string \<Rightarrow> row list read_result \<Rightarrow> generator \<times> bool" where
  "load_csv_data st csv_path file =
     (case file of
        FileNotFound \<Rightarrow>
          (st\<lparr>errors := errors st @ [''CSV file not found: '' @ csv_path]\<rparr>, False)
      | ReadFailed msg \<Rightarrow>
          (st\<lparr>errors := errors st @ [''Error reading CSV: '' @ msg]\<rparr>, False)
      | Content rows \<Rightarrow>
          (let st1 = st\<lparr>csv_data := rows\<rparr>
           in if csv_data st1 = []
              then (st1\<lparr>errors := errors st1 @ [''CSV file contains no data'']\<rparr>, False)
              else (case validate_csv_headers st1 of
                      Inr res \<Rightarrow> res
                    | Inl msg \<Rightarrow>
                        (st1\<lparr>errors := errors st1 @ [''Error reading CSV: '' @ msg]\<rparr>, False))))"

text \<open>
  \<^verbatim>\<open>_merge_template\<close>: the loop runs over the placeholder list and rewrites the working
  copy; \<^verbatim>\<open>data.get(placeholder, f"{placeholder}_NOT_FOUND")\<close> is the new text.
\<close>

definition dict_get :: "row \<Rightarrow> string \<Rightarrow> string \<Rightarrow> string" where
  "dict_get data key dflt = (case data key of Some v \<Rightarrow> v | None \<Rightarrow> dflt)"

fun merge_loop :: "string \<Rightarrow> string \<Rightarrow> row \<Rightarrow> string list \<Rightarrow> string \<Rightarrow> string" where
  "merge_loop start end data [] content = content"
| "merge_loop start end data (placeholder # rest) content =
     merge_loop start end data rest
       (py_replace (start @ placeholder @ end)
          (dict_get data placeholder (placeholder @ ''_NOT_FOUND'')) content)"

definition merge_template :: "generator \<Rightarrow> row \<Rightarrow> string" where
  "merge_template st data =
     (case current_delimiters st of
        (start, end) \<Rightarrow> merge_loop start end data (placeholders st) (template_content st))"

text \<open>\<^verbatim>\<open>_ready_to_generate\<close>\<close>

definition ready_to_generate :: "generator \<Rightarrow> generator \<times> bool" where
  "ready_to_generate st =
     (if template_content st = [] then (st\<lparr>errors := errors st @ [''No template loaded'']\<rparr>, False)
      else if csv_data st = [] then (st\<lparr>errors := errors st @ [''No CSV data loaded'']\<rparr>, False)
      else (st, True))"

text \<open>
  The two writers. Each runs the body of its \<^verbatim>\<open>for\<close> loop inside \<^verbatim>\<open>try\<close>, and the first
  statement of the body is the call of \<^verbatim>\<open>self._merge_template(row)\<close>. The loops take the
  outcome of that call as a function \<open>mrg\<close>, \<open>Inr\<close> the merged text and \<open>Inl\<close> the text of
  an exception, so that the handler is a branch of the model; the methods themselves pass
  the merge of this class, which always returns. A loop state holds the error log, the
  world, the count of successes and, in combined mode, the accumulated pieces.
\<close>

record loop_state =
  log :: "string list"
  disk :: world
  success_count :: nat
  combined_content :: "string list"

definition row_error :: "nat \<Rightarrow> string \<Rightarrow> loop_state \<Rightarrow> loop_state" where
  "row_error i msg ls =
     ls\<lparr>log := log ls @ [''Error processing row '' @ str_nat (i + 1) @ '': '' @ msg]\<rparr>"

text \<open>The base filename of row \<open>i\<close> (counted from 0, as \<^verbatim>\<open>enumerate\<close> does).\<close>

definition base_filename :: "string option \<Rightarrow> nat \<Rightarrow> row \<Rightarrow> string" where
  "base_filename filename_field i data =
     (case filename_field of
        None \<Rightarrow> ''document_'' @ str_nat (i + 1)
      | Some f \<Rightarrow>
          (case (if f \<noteq> [] then data f else None) of
             Some v \<Rightarrow> py_replace '' '' ''_'' (strip v)
           | None \<Rightarrow> ''document_'' @ str_nat (i + 1)))"

definition individual_row ::
  "(row \<Rightarrow> string + string) \<Rightarrow> string \<Rightarrow> string option \<Rightarrow> nat \<Rightarrow> row \<Rightarrow> loop_state \<Rightarrow> loop_state" where
  "individual_row mrg dir filename_field i data ls =
     (case mrg data of
        Inl msg \<Rightarrow> row_error i msg ls
      | Inr content \<Rightarrow>
          (let base = base_filename filename_field i data;
               output_path = unused_path (disk ls) dir base
                               (os_path_join dir (base @ ''.txt'')) 1
           in case write_file (disk ls) output_path content of
                Inl msg \<Rightarrow> row_error i msg ls
              | Inr w \<Rightarrow> ls\<lparr>disk := w, success_count := success_count ls + 1\<rparr>))"

fun individual_loop ::
  "(row \<Rightarrow> string + string) \<Rightarrow> string \<Rightarrow> string option \<Rightarrow> nat \<Rightarrow> row list \<Rightarrow> loop_state \<Rightarrow> loop_state" where
  "individual_loop mrg dir filename_field i [] ls = ls"
| "individual_loop mrg dir filename_field i (data # rows) ls =
     individual_loop mrg dir filename_field (i + 1) rows
       (individual_row mrg dir filename_field i data ls)"

text \<open>The result of a writer: the generator, the world, the line printed, the return value.\<close>

type_synonym written = "generator \<times> world \<times> string list \<times> bool"

definition generate_individual_files_with ::
  "(row \<Rightarrow> string + string) \<Rightarrow> generator \<Rightarrow> world \<Rightarrow> string option \<Rightarrow> written" where
  "generate_individual_files_with mrg st w filename_field =
     (let ls = individual_loop mrg (output_dir st) filename_field 0 (csv_data st)
                 \<lparr>log = errors st, disk = w, success_count = 0, combined_content = []\<rparr>
      in (st\<lparr>errors := log ls\<rparr>, disk ls,
          [''Successfully generated '' @ str_nat (success_count ls) @ '' documents''],
          0 < success_count ls))"

definition generate_individual_files :: "generator \<Rightarrow> world \<Rightarrow> string option \<Rightarrow> written" where
  "generate_individual_files st = generate_individual_files_with (\<lambda>data. Inr (merge_template st data)) st"

definition separator :: string where
  "separator = [newline] @ replicate 80 CHR ''='' @ [newline]"

definition combined_row :: "(row \<Rightarrow> string + string) \<Rightarrow> nat \<Rightarrow> row \<Rightarrow> loop_state \<Rightarrow> loop_state" where
  "combined_row mrg i data ls =
     (case mrg data of
        Inl msg \<Rightarrow> row_error i msg ls
      | Inr content \<Rightarrow>
          ls\<lparr>combined_content := combined_content ls @ [content, separator],
             success_count := success_count ls + 1\<rparr>)"

fun combined_loop :: "(row \<Rightarrow> string + string) \<Rightarrow> nat \<Rightarrow> row list \<Rightarrow> loop_state \<Rightarrow> loop_state" where
  "combined_loop mrg i [] ls = ls"
| "combined_loop mrg i (data # rows) ls = combined_loop mrg (i + 1) rows (combined_row mrg i data ls)"

text \<open>\<open>timestamp\<close> is \<^verbatim>\<open>datetime.now().strftime("%Y%m%d_%H%M%S")\<close>.\<close>

definition generate_combined_output_with ::
  "(row \<Rightarrow> string + string) \<Rightarrow> generator \<Rightarrow> world \<Rightarrow> string \<Rightarrow> written" where
  "generate_combined_output_with mrg st w timestamp =
     (let output_path = os_path_join (output_dir st) (''combined_output_'' @ timestamp @ ''.txt'');
          ls = combined_loop mrg 0 (csv_data st)
                 \<lparr>log = errors st, disk = w, success_count = 0, combined_content = []\<rparr>
      in if success_count ls \<noteq> 0
         then (case write_file w output_path (join [newline] (combined_content ls)) of
                 Inr w' \<Rightarrow>
                   (st\<lparr>errors := log ls\<rparr>, w',
                    [''Successfully generated combined document with '' @
                     str_nat (success_count ls) @ '' entries''], True)
               | Inl msg \<Rightarrow>
                   (st\<lparr>errors := log ls @ [''Error writing combined file: '' @ msg]\<rparr>, w, [], False))
         else (st\<lparr>errors := log ls\<rparr>, w, [], False))"

definition generate_combined_output :: "generator \<Rightarrow> world \<Rightarrow> string \<Rightarrow> written" where
  "generate_combined_output st = generate_combined_output_with (\<lambda>data. Inr (merge_template st data)) st"

text \<open>
  \<^verbatim>\<open>generate_output\<close>. \<^verbatim>\<open>os.makedirs\<close> stands outside every handler: its exception leaves
  the method, which is the \<open>Inl\<close> of the result.
\<close>

definition generate_output ::
  "generator \<Rightarrow> world \<Rightarrow> string \<Rightarrow> string option \<Rightarrow> string \<Rightarrow> string + written" where
  "generate_output st w output_format filename_field timestamp =
     (case ready_to_generate st of
        (st1, False) \<Rightarrow> Inr (st1, w, [], False)
      | (st1, True) \<Rightarrow>
          (case makedirs w (output_dir st1) of
             Inl exn \<Rightarrow> Inl exn
           | Inr w1 \<Rightarrow>
               if output_format = ''combined''
               then Inr (generate_combined_output st1 w1 timestamp)
               else Inr (generate_individual_files st1 w1 filename_field)))"

text \<open>\<^verbatim>\<open>get_errors\<close> and \<^verbatim>\<open>clear_errors\<close>\<close>

definition get_errors :: "generator \<Rightarrow> string list" where
  "get_errors st = errors st"

definition clear_errors :: "generator \<Rightarrow> generator" where
  "clear_errors st = st\<lparr>errors := []\<rparr>"

text \<open>
  The calls a client can make on a generator, each with what the environment answers, and
  the generator after a call. An exception that leaves \<^verbatim>\<open>generate_output\<close> leaves the
  generator with the log of the readiness check, which passed.
\<close>

datatype call =
    LoadTemplate string "string read_result"
  | SetDelimiters string string
  | LoadCsvData string "row list read_result"
  | GenerateOutput world string "string option" string
  | ClearErrors

fun step :: "generator \<Rightarrow> call \<Rightarrow> generator" where
  "step st (LoadTemplate path file) = fst (load_template st path file)"
| "step st (SetDelimiters start end) = set_delimiters st start end"
| "step st (LoadCsvData path file) = fst (load_csv_data st path file)"
| "step st (GenerateOutput w output_format filename_field timestamp) =
     (case generate_output st w output_format filename_field timestamp of
        Inl exn \<Rightarrow> st
      | Inr res \<Rightarrow> fst res)"
| "step st ClearErrors = clear_errors st"

definition run :: "call list \<Rightarrow> generator" where
  "run calls = foldl step init calls"

section \<open>Properties\<close>

subsection \<open>Validation where a first row exists\<close>

lemma validate_csv_headers_Cons:
  "csv_data st = first_row # others \<Longrightarrow>
     validate_csv_headers st =
       (if filter (\<lambda>ph. first_row ph = None) (placeholders st) \<noteq> []
        then Inr (st\<lparr>errors := errors st @
                    [''CSV missing required columns: '' @
                     join '', '' (filter (\<lambda>ph. first_row ph = None) (placeholders st))]\<rparr>, False)
        else Inr (st, True))"
  by (cases "placeholders st") (simp_all add: validate_csv_headers_def Let_def)

subsection \<open>Extraction on the empty text\<close>

lemma findall_Nil: "findall s e [] = (if s = [] \<and> e = [] then [[]] else [])"
proof (cases "s = [] \<and> e = []")
  case True
  have "findall_from [] [] True [] = []"
    by (subst findall_from.simps) (simp add: match_here_def)
  then have "findall_from [] [] False [] = [[]]"
    by (subst findall_from.simps) (simp add: match_here_def)
  with True show ?thesis by (simp add: findall_def)
next
  case False
  then have "match_here s e False [] = None"
    by (auto simp: match_here_def)
  then have "findall_from s e False [] = []"
    by (subst findall_from.simps) simp
  with False show ?thesis by (simp add: findall_def)
qed

subsection \<open>The delimiters change in \<open>set_delimiters\<close> only\<close>

lemma extract_placeholders_delimiters [simp]:
  "current_delimiters (extract_placeholders st) = current_delimiters st"
  by (simp add: extract_placeholders_def split: prod.splits)

lemma load_template_delimiters:
  "current_delimiters (fst (load_template st path file)) = current_delimiters st"
  by (simp add: load_template_def split: read_result.splits)

lemma load_csv_data_delimiters:
  "current_delimiters (fst (load_csv_data st path file)) = current_delimiters st"
  by (auto simp: load_csv_data_def validate_csv_headers_def Let_def
           split: read_result.splits sum.splits list.splits)

lemma generate_output_delimiters:
  "generate_output st w fmt field ts = Inr res \<Longrightarrow>
     current_delimiters (fst res) = current_delimiters st"
  by (auto simp: generate_output_def ready_to_generate_def generate_combined_output_def
                 generate_combined_output_with_def generate_individual_files_def
                 generate_individual_files_with_def Let_def
           split: if_splits sum.splits prod.splits bool.splits)

lemma step_delimiters:
  "current_delimiters (step st c) =
     (case c of SetDelimiters s e \<Rightarrow> (s, e) | _ \<Rightarrow> current_delimiters st)"
  by (cases c)
     (auto simp: load_template_delimiters load_csv_data_delimiters set_delimiters_def
                 clear_errors_def Let_def
           split: sum.splits dest: generate_output_delimiters)

subsection \<open>Keys in insertion order\<close>

text \<open>The position of the first occurrence of \<open>x\<close> in \<open>xs\<close> (the length of \<open>xs\<close> if there is none).\<close>

definition first_pos :: "'a list \<Rightarrow> 'a \<Rightarrow> nat" where
  "first_pos xs x = length (takeWhile (\<lambda>y. y \<noteq> x) xs)"

lemma dict_fromkeys_snoc: "dict_fromkeys (xs @ [x]) = insert_key (dict_fromkeys xs) x"
  by (simp add: dict_fromkeys_def)

lemma set_dict_fromkeys: "set (dict_fromkeys xs) = set xs"
  by (induction xs rule: rev_induct)
     (auto simp: dict_fromkeys_snoc insert_key_def dict_fromkeys_def)

lemma distinct_dict_fromkeys: "distinct (dict_fromkeys xs)"
  by (induction xs rule: rev_induct)
     (auto simp: dict_fromkeys_snoc insert_key_def dict_fromkeys_def)

lemma first_pos_less: "x \<in> set xs \<Longrightarrow> first_pos xs x < length xs"
proof -
  assume "x \<in> set xs"
  then have "takeWhile (\<lambda>y. y \<noteq> x) xs \<noteq> xs"
    by (auto simp: takeWhile_eq_all_conv)
  moreover have "xs = takeWhile (\<lambda>y. y \<noteq> x) xs @ dropWhile (\<lambda>y. y \<noteq> x) xs"
    by simp
  ultimately have "dropWhile (\<lambda>y. y \<noteq> x) xs \<noteq> []"
    by (metis append_Nil2)
  then have "0 < length (dropWhile (\<lambda>y. y \<noteq> x) xs)" by simp
  moreover have "length xs = length (takeWhile (\<lambda>y. y \<noteq> x) xs)
                           + length (dropWhile (\<lambda>y. y \<noteq> x) xs)"
    by (metis length_append takeWhile_dropWhile_id)
  ultimately show ?thesis by (simp add: first_pos_def)
qed

lemma first_pos_snoc_old: "y \<in> set xs \<Longrightarrow> first_pos (xs @ [x]) y = first_pos xs y"
  by (simp add: first_pos_def takeWhile_append1)

lemma first_pos_snoc_new: "x \<notin> set xs \<Longrightarrow> first_pos (xs @ [x]) x = length xs"
proof -
  assume "x \<notin> set xs"
  then have "takeWhile (\<lambda>y. y \<noteq> x) (xs @ [x]) = xs @ takeWhile (\<lambda>y. y \<noteq> x) [x]"
    by (intro takeWhile_append2) auto
  then show ?thesis by (simp add: first_pos_def)
qed

lemma dict_fromkeys_first_occurrence_order:
  "sorted_wrt (<) (map (first_pos xs) (dict_fromkeys xs))"
proof (induction xs rule: rev_induct)
  case Nil
  then show ?case by (simp add: dict_fromkeys_def)
next
  case (snoc x xs)
  have same: "map (first_pos (xs @ [x])) (dict_fromkeys xs) = map (first_pos xs) (dict_fromkeys xs)"
    by (rule map_cong) (auto simp: set_dict_fromkeys first_pos_snoc_old)
  show ?case
  proof (cases "x \<in> set xs")
    case True
    then have eq: "dict_fromkeys (xs @ [x]) = dict_fromkeys xs"
      by (simp add: dict_fromkeys_snoc insert_key_def set_dict_fromkeys)
    show ?thesis unfolding eq same by (rule snoc.IH)
  next
    case False
    then have eq: "dict_fromkeys (xs @ [x]) = dict_fromkeys xs @ [x]"
      by (simp add: dict_fromkeys_snoc insert_key_def set_dict_fromkeys)
    have positions: "map (first_pos (xs @ [x])) (dict_fromkeys (xs @ [x]))
                       = map (first_pos xs) (dict_fromkeys xs) @ [length xs]"
      unfolding eq by (simp only: map_append same list.map first_pos_snoc_new[OF False])
    have bound: "\<forall>n \<in> set (map (first_pos xs) (dict_fromkeys xs)). n < length xs"
      by (auto simp: set_dict_fromkeys first_pos_less)
    show ?thesis unfolding positions
      using snoc.IH bound by (simp add: sorted_wrt_append)
  qed
qed

subsection \<open>What the pattern matches\<close>

text \<open>
  A shortest match at the head of a text, in the words of the specification: the text is the
  start marker, a name, the end marker and a rest; the name has no newline; and the end
  marker does not already follow a shorter name.
\<close>

definition shortest_match :: "string \<Rightarrow> string \<Rightarrow> string \<Rightarrow> string \<Rightarrow> string \<Rightarrow> bool" where
  "shortest_match s e tx g rest \<longleftrightarrow>
     tx = s @ g @ e @ rest \<and> newline \<notin> set g
     \<and> (\<forall>k < length g. \<not> prefix e (drop k (g @ e @ rest)))"

lemma lazy_group_sound:
  "lazy_group e ok acc tx = Some (g, rest) \<Longrightarrow>
     \<exists>g'. g = rev acc @ g' \<and> tx = g' @ e @ rest \<and> newline \<notin> set g'
          \<and> (\<forall>k < length g'. (ok \<or> 0 < k) \<longrightarrow> \<not> prefix e (drop k tx))"
proof (induction e ok acc tx rule: lazy_group.induct)
  case (1 e ok acc)
  then show ?case by (auto split: if_splits)
next
  case (2 e ok acc c cs)
  show ?case
  proof (cases "ok \<and> prefix e (c # cs)")
    case True
    with "2.prems" have g: "g = rev acc" and r: "rest = drop (length e) (c # cs)" by auto
    from True have "c # cs = e @ rest" unfolding r
      by (metis append_eq_conv_conj prefix_def)
    with g show ?thesis by auto
  next
    case False
    with "2.prems" have nl: "c \<noteq> newline" and
      rec: "lazy_group e True (c # acc) cs = Some (g, rest)"
      by (auto split: if_splits)
    from "2.IH"[OF False nl rec] obtain g' where
      g': "g = rev (c # acc) @ g'" "cs = g' @ e @ rest" "newline \<notin> set g'"
          "\<forall>k < length g'. \<not> prefix e (drop k cs)"
      by auto
    have "\<forall>k < length (c # g'). (ok \<or> 0 < k) \<longrightarrow> \<not> prefix e (drop k (c # cs))"
    proof (intro allI impI)
      fix k assume k: "k < length (c # g')" and ok: "ok \<or> 0 < k"
      show "\<not> prefix e (drop k (c # cs))"
      proof (cases k)
        case 0
        with ok False show ?thesis by simp
      next
        case (Suc j)
        with k g'(4) show ?thesis by simp
      qed
    qed
    with g' nl show ?thesis
      by (intro exI[of _ "c # g'"]) simp
  qed
qed

lemma lazy_group_complete:
  "newline \<notin> set g \<Longrightarrow> (\<forall>k < length g. \<not> prefix e (drop k (g @ e @ rest))) \<Longrightarrow>
     lazy_group e True acc (g @ e @ rest) = Some (rev acc @ g, rest)"
proof (induction g arbitrary: acc)
  case Nil
  show ?case
  proof (cases "e @ rest")
    case Nil
    then show ?thesis by simp
  next
    case (Cons d ds)
    then have "prefix e (d # ds)" by (metis prefixI)
    moreover from Cons have "drop (length e) (d # ds) = rest"
      by (metis append_eq_conv_conj)
    ultimately have "lazy_group e True acc (d # ds) = Some (rev acc, rest)" by simp
    with Cons show ?thesis by simp
  qed
next
  case (Cons c g)
  from Cons.prems(2) have here: "\<not> prefix e (c # g @ e @ rest)" by force
  have later: "\<forall>k < length g. \<not> prefix e (drop k (g @ e @ rest))"
  proof (intro allI impI)
    fix k assume "k < length g"
    then have "Suc k < length (c # g)" by simp
    with Cons.prems(2) have "\<not> prefix e (drop (Suc k) ((c # g) @ e @ rest))" by blast
    then show "\<not> prefix e (drop k (g @ e @ rest))" by simp
  qed
  from Cons.prems(1) have nl: "c \<noteq> newline" "newline \<notin> set g" by auto
  from Cons.IH[OF nl(2) later, of "c # acc"] here nl(1) show ?case by simp
qed

lemma match_here_shortest:
  "match_here s e False tx = Some (g, rest) \<Longrightarrow> shortest_match s e tx g rest"
proof -
  assume m: "match_here s e False tx = Some (g, rest)"
  then have "prefix s tx" by (auto simp: match_here_def split: if_splits)
  then obtain tl where tx: "tx = s @ tl" by (auto simp: prefix_def)
  with m have "lazy_group e True [] tl = Some (g, rest)"
    by (simp add: match_here_def)
  from lazy_group_sound[OF this] have
    "tl = g @ e @ rest \<and> newline \<notin> set g \<and> (\<forall>k < length g. \<not> prefix e (drop k tl))"
    by auto
  with tx show ?thesis unfolding shortest_match_def by blast
qed

lemma shortest_match_here:
  "shortest_match s e tx g rest \<Longrightarrow> match_here s e False tx = Some (g, rest)"
  using lazy_group_complete[of g e rest "[]"]
  by (auto simp: shortest_match_def match_here_def)

lemma findall_from_no_newline:
  "g \<in> set (findall_from s e b tx) \<Longrightarrow> newline \<notin> set g"
proof (induction s e b tx rule: findall_from.induct)
  case (1 s e b tx)
  show ?case
  proof (cases "match_here s e b tx")
    case None
    show ?thesis
    proof (cases tx)
      case Nil
      with None "1.prems" show ?thesis
        by (subst (asm) findall_from.simps) simp
    next
      case (Cons c cs)
      with None "1.prems" have "g \<in> set (findall_from s e False cs)"
        by (subst (asm) findall_from.simps) simp
      with "1.IH"(1) None Cons show ?thesis by blast
    qed
  next
    case (Some m)
    obtain g0 rest where m: "m = (g0, rest)" by (cases m)
    from Some m have "\<exists>g'. g0 = rev [] @ g' \<and> newline \<notin> set g'"
      by (auto simp: match_here_def split: if_splits dest!: lazy_group_sound)
    then have g0: "newline \<notin> set g0" by simp
    from "1.prems" Some m have "g = g0 \<or> g \<in> set (findall_from s e (length rest = length tx) rest)"
      by (subst (asm) findall_from.simps) auto
    with g0 "1.IH"(2)[OF Some m[symmetric]] show ?thesis by auto
  qed
qed

subsection \<open>What \<open>replace\<close> and \<open>strip\<close> do\<close>

lemma join_Cons_Cons: "ps \<noteq> [] \<Longrightarrow> join sep (p # ps) = p @ sep @ join sep ps"
  by (cases ps) simp_all

lemma join_push: "join sep ((c # p) # ps) = c # join sep (p # ps)"
  by (cases ps) simp_all

lemma join_prefix: "prefix p (join sep (p # ps))"
  by (cases ps) simp_all

text \<open>
  Replacing a non-empty token: the text is a list of pieces with the token between them, no
  piece contains the token, and the result is the same pieces with the new text between them.
\<close>

lemma replace_from_pieces:
  "old \<noteq> [] \<Longrightarrow>
     \<exists>pieces. pieces \<noteq> [] \<and> tx = join old pieces \<and> (\<forall>p \<in> set pieces. \<not> sublist old p)
              \<and> replace_from old new tx = join new pieces"
proof (induction old new tx rule: replace_from.induct)
  case (1 old new tx)
  show ?case
  proof (cases "prefix old tx")
    case True
    with "1.prems" have c: "old \<noteq> [] \<and> prefix old tx" by simp
    from "1.IH"(1)[OF c "1.prems"] obtain ps where
      ps: "ps \<noteq> []" "drop (length old) tx = join old ps" "\<forall>p \<in> set ps. \<not> sublist old p"
          "replace_from old new (drop (length old) tx) = join new ps"
      by blast
    from True have "tx = old @ drop (length old) tx"
      by (metis append_eq_conv_conj prefix_def)
    with ps(1,2) have "tx = join old ([] # ps)" by (simp add: join_Cons_Cons)
    moreover from c ps(1,4) have "replace_from old new tx = join new ([] # ps)"
      by (subst replace_from.simps) (simp add: join_Cons_Cons)
    moreover from "1.prems" ps(3) have "\<forall>p \<in> set ([] # ps). \<not> sublist old p" by simp
    ultimately show ?thesis by blast
  next
    case False
    then have nc: "\<not> (old \<noteq> [] \<and> prefix old tx)" by simp
    show ?thesis
    proof (cases tx)
      case Nil
      with nc have "replace_from old new tx = join new [[]]"
        by (subst replace_from.simps) simp
      moreover from Nil have "tx = join old [[]]" by simp
      moreover from "1.prems" have "\<forall>p \<in> set [[]]. \<not> sublist old p" by simp
      ultimately show ?thesis by blast
    next
      case (Cons c cs)
      from "1.IH"(2)[OF nc Cons "1.prems"] obtain ps where
        ps: "ps \<noteq> []" "cs = join old ps" "\<forall>p \<in> set ps. \<not> sublist old p"
            "replace_from old new cs = join new ps"
        by blast
      from ps(1) obtain p ps' where pp: "ps = p # ps'" by (cases ps) auto
      have "prefix (c # p) tx" using Cons ps(2) pp join_prefix[of p old ps'] by simp
      with False have "\<not> prefix old (c # p)" using prefix_order.trans by blast
      with ps(3) pp have "\<not> sublist old (c # p)" by (simp add: sublist_Cons_right)
      with ps(3) pp have "\<forall>q \<in> set ((c # p) # ps'). \<not> sublist old q" by simp
      moreover from Cons ps(2) pp have "tx = join old ((c # p) # ps')" by (simp add: join_push)
      moreover from nc Cons ps(4) pp have "replace_from old new tx = join new ((c # p) # ps')"
        by (subst replace_from.simps) (auto simp: join_push)
      ultimately show ?thesis by blast
    qed
  qed
qed

lemma replace_char_map:
  "replace_from [a] [b] tx = map (\<lambda>c. if c = a then b else c) tx"
proof (induction tx)
  case Nil
  then show ?case by (subst replace_from.simps) simp
next
  case (Cons c cs)
  then show ?case by (subst replace_from.simps) auto
qed

lemma strip_parts:
  "\<exists>lead trail. tx = lead @ strip tx @ trail
       \<and> (\<forall>c \<in> set lead. isspace c) \<and> (\<forall>c \<in> set trail. isspace c)"
proof -
  let ?m = "dropWhile isspace tx"
  have a: "tx = takeWhile isspace tx @ ?m" by simp
  have "rev ?m = takeWhile isspace (rev ?m) @ dropWhile isspace (rev ?m)" by simp
  then have "?m = strip tx @ rev (takeWhile isspace (rev ?m))"
    unfolding strip_def by (metis rev_append rev_rev_ident)
  with a have "tx = takeWhile isspace tx @ strip tx @ rev (takeWhile isspace (rev ?m))"
    by simp
  moreover have "\<forall>c \<in> set (takeWhile isspace tx). isspace c"
    by (auto dest: set_takeWhileD)
  moreover have "\<forall>c \<in> set (rev (takeWhile isspace (rev ?m))). isspace c"
    by (auto dest: set_takeWhileD)
  ultimately show ?thesis by blast
qed

lemma strip_ends:
  "strip tx \<noteq> [] \<Longrightarrow> \<not> isspace (hd (strip tx)) \<and> \<not> isspace (last (strip tx))"
proof -
  assume ne: "strip tx \<noteq> []"
  let ?m = "dropWhile isspace tx"
  let ?r = "dropWhile isspace (rev ?m)"
  from ne have r: "?r \<noteq> []" by (simp add: strip_def)
  then have "\<not> isspace (hd ?r)" by (rule hd_dropWhile)
  with r have l: "\<not> isspace (last (strip tx))" by (simp add: strip_def last_rev)
  from r have "rev ?m \<noteq> []" by (metis dropWhile.simps(1))
  then have m: "?m \<noteq> []" by (metis rev.simps(1))
  then have hm: "\<not> isspace (hd ?m)" by (rule hd_dropWhile)
  have "rev ?m = takeWhile isspace (rev ?m) @ ?r" by simp
  then have "?m = strip tx @ rev (takeWhile isspace (rev ?m))"
    unfolding strip_def by (metis rev_append rev_rev_ident)
  with ne have "hd ?m = hd (strip tx)" by (metis hd_append2)
  with hm l show ?thesis by simp
qed

subsection \<open>The loop of the combined writer\<close>

lemma combined_loop_disk: "disk (combined_loop mrg i rows ls) = disk ls"
  by (induction rows arbitrary: i ls)
     (auto simp: combined_row_def row_error_def split: sum.splits)

lemma combined_loop_count:
  "success_count (combined_loop mrg i rows ls)
     = success_count ls + length (filter (\<lambda>data. \<not> isl (mrg data)) rows)"
proof (induction rows arbitrary: i ls)
  case Nil
  then show ?case by simp
next
  case (Cons data rows)
  show ?case
  proof (cases "mrg data")
    case (Inl msg)
    then have "success_count (combined_row mrg i data ls) = success_count ls"
      by (simp add: combined_row_def row_error_def)
    with Inl Cons.IH[of "i + 1" "combined_row mrg i data ls"] show ?thesis by simp
  next
    case (Inr content)
    then have "success_count (combined_row mrg i data ls) = success_count ls + 1"
      by (simp add: combined_row_def)
    with Inr Cons.IH[of "i + 1" "combined_row mrg i data ls"] show ?thesis by simp
  qed
qed

lemma combined_loop_content:
  "combined_content (combined_loop mrg i rows ls)
     = combined_content ls
       @ concat (map (\<lambda>data. case mrg data of Inl e \<Rightarrow> [] | Inr content \<Rightarrow> [content, separator]) rows)"
  by (induction rows arbitrary: i ls)
     (auto simp: combined_row_def row_error_def split: sum.splits)

subsection \<open>The collision loop and the individual writer\<close>














text \<open>
  Claim C1 as the code has it. A failing \<^verbatim>\<open>load_csv_data\<close> appends exactly one entry to the
  error log and leaves the template text, the placeholder list, the delimiters and the output
  directory as they were. The rows are kept when the file is not found or cannot be read;
  when the file was read and the call fails for empty data or in header validation,
  \<^verbatim>\<open>csv_data\<close> holds the rows just read.
\<close>

theorem load_csv_data_failure_state:
  assumes "load_csv_data st path file = (st', False)"
  shows "\<exists>msg. st' = st\<lparr>csv_data := (case file of Content rows \<Rightarrow> rows | _ \<Rightarrow> csv_data st),
                         errors := errors st @ [msg]\<rparr>"
  using assms
  by (auto simp: load_csv_data_def validate_csv_headers_def Let_def
           split: read_result.splits list.splits if_splits)

theorem load_csv_data_failure_state_witness:
  "\<exists>msg. fst (load_csv_data (init\<lparr>csv_data := [[''a'' \<mapsto> ''1'']]\<rparr>) ''data.csv'' FileNotFound)
     = init\<lparr>csv_data := [[''a'' \<mapsto> ''1'']], errors := errors init @ [msg]\<rparr>"
proof -
  have "load_csv_data (init\<lparr>csv_data := [[''a'' \<mapsto> ''1'']]\<rparr>) ''data.csv'' FileNotFound
          = (fst (load_csv_data (init\<lparr>csv_data := [[''a'' \<mapsto> ''1'']]\<rparr>) ''data.csv'' FileNotFound),
             False)"
    by (simp add: load_csv_data_def)
  from load_csv_data_failure_state[OF this] show ?thesis by simp
qed

text \<open>
  The claim as the specification states it fails: after one row has been loaded, loading a
  file without data rows returns failure and leaves \<^verbatim>\<open>csv_data\<close> empty.
\<close>

theorem load_csv_data_failure_replaces_rows:
  "snd (load_csv_data (run [LoadCsvData ''a.csv'' (Content [[''a'' \<mapsto> ''1'']])])
          ''b.csv'' (Content [])) = False
   \<and> csv_data (run [LoadCsvData ''a.csv'' (Content [[''a'' \<mapsto> ''1'']])]) = [[''a'' \<mapsto> ''1'']]
   \<and> csv_data (fst (load_csv_data (run [LoadCsvData ''a.csv'' (Content [[''a'' \<mapsto> ''1'']])])
          ''b.csv'' (Content []))) = []"
  by (simp add: run_def init_def load_csv_data_def validate_csv_headers_def)

text \<open>
  Claim C2 as the code has it. For delimiters that are not both empty, extraction scans the
  text from the left: where a shortest match of start, name and end begins with a name free
  of newlines, the name is found and the scan goes on behind the match, so finds do not
  overlap; where no such match begins, the scan moves one character on; and it ends with the
  text. No name that is found, and so no placeholder, contains a newline: the dot of the
  pattern does not match one.
\<close>

theorem findall_shortest_matches_without_newline:
  assumes "s \<noteq> [] \<or> e \<noteq> []"
  shows "(shortest_match s e tx g rest \<longrightarrow> findall s e tx = g # findall s e rest)
       \<and> ((\<forall>g rest. \<not> shortest_match s e (c # cs) g rest) \<longrightarrow>
            findall s e (c # cs) = findall s e cs)
       \<and> findall s e [] = []
       \<and> (\<forall>name \<in> set (placeholders (extract_placeholders st)). newline \<notin> set name)"
proof (intro conjI impI)
  assume sm: "shortest_match s e tx g rest"
  then have m: "match_here s e False tx = Some (g, rest)" by (rule shortest_match_here)
  from sm assms have "length rest \<noteq> length tx"
    by (auto simp: shortest_match_def)
  with m show "findall s e tx = g # findall s e rest"
    unfolding findall_def by (subst findall_from.simps) simp
next
  assume none: "\<forall>g rest. \<not> shortest_match s e (c # cs) g rest"
  have "match_here s e False (c # cs) = None"
  proof (cases "match_here s e False (c # cs)")
    case (Some m)
    then have "shortest_match s e (c # cs) (fst m) (snd m)"
      by (intro match_here_shortest) simp
    with none show ?thesis by blast
  qed simp
  then show "findall s e (c # cs) = findall s e cs"
    unfolding findall_def by (subst findall_from.simps) simp
next
  from assms show "findall s e [] = []" by (auto simp: findall_Nil)
next
  show "\<forall>name \<in> set (placeholders (extract_placeholders st)). newline \<notin> set name"
    by (cases "current_delimiters st")
       (auto simp: extract_placeholders_def set_dict_fromkeys findall_def
             dest: findall_from_no_newline)
qed

theorem findall_shortest_matches_without_newline_witness:
  "shortest_match ''{{'' ''}}'' ''{{a}}b'' ''a'' ''b''
   \<and> findall ''{{'' ''}}'' ''{{a}}b'' = [''a'']"
proof -
  have delims: "''{{'' \<noteq> [] \<or> ''}}'' \<noteq> []" by simp
  have sm: "shortest_match ''{{'' ''}}'' ''{{a}}b'' ''a'' ''b''"
    by (simp add: shortest_match_def newline_def)
  have no: "\<forall>g rest. \<not> shortest_match ''{{'' ''}}'' ''b'' g rest"
    by (simp add: shortest_match_def)
  note inst = findall_shortest_matches_without_newline[OF delims]
  from inst[of "''{{a}}b''" "''a''" "''b''"] sm
  have "findall ''{{'' ''}}'' ''{{a}}b'' = ''a'' # findall ''{{'' ''}}'' ''b''" by blast
  moreover from inst[of _ _ _ "CHR ''b''" "[]"] no
  have "findall ''{{'' ''}}'' ''b'' = findall ''{{'' ''}}'' []" by blast
  moreover from inst have "findall ''{{'' ''}}'' [] = []" by blast
  ultimately show ?thesis using sm by simp
qed

text \<open>
  The claim as the specification states it fails: a name that spans a newline between the
  default delimiters is not extracted.
\<close>

theorem placeholder_across_newline_not_extracted:
  "placeholders (fst (load_template init ''t.txt'' (Content (''{{a'' @ [CHR 0x0A] @ ''b}}'')))) = []"
  by (simp add: load_template_def extract_placeholders_def init_def DEFAULT_DELIMITERS_def
                findall_def findall_from.simps match_here_def dict_fromkeys_def newline_def)



text \<open>
  Claim C4. Header validation looks at the first row only. It fails exactly when some
  placeholder is not a key of that row; a failing validation appends one entry to the error
  log, the fixed prefix followed by all missing names joined with a comma and a space, and a
  successful one leaves the generator as it was. With placeholders a, b and the single row
  that has only the key a, validation fails and reports exactly b.
\<close>

theorem validate_csv_headers_first_row:
  assumes "csv_data st = first_row # others"
  shows "((\<exists>ph. ph \<in> set (placeholders st) \<and> ph \<notin> dom first_row) \<longrightarrow>
            validate_csv_headers st =
              Inr (st\<lparr>errors := errors st @
                     [''CSV missing required columns: '' @
                      join '', '' (filter (\<lambda>ph. ph \<notin> dom first_row) (placeholders st))]\<rparr>,
                   False))
       \<and> (\<not> (\<exists>ph. ph \<in> set (placeholders st) \<and> ph \<notin> dom first_row) \<longrightarrow>
            validate_csv_headers st = Inr (st, True))"
proof -
  have dom_eq: "(\<lambda>ph. first_row ph = None) = (\<lambda>ph. ph \<notin> dom first_row)"
    by (auto simp: dom_def)
  have "(filter (\<lambda>ph. ph \<notin> dom first_row) (placeholders st) = []) \<longleftrightarrow>
        \<not> (\<exists>ph. ph \<in> set (placeholders st) \<and> ph \<notin> dom first_row)"
    by (auto simp: filter_empty_conv)
  with validate_csv_headers_Cons[OF assms] show ?thesis
    by (simp add: dom_eq)
qed

theorem validate_csv_headers_first_row_witness:
  "validate_csv_headers (init\<lparr>placeholders := [''a'', ''b''], csv_data := [[''a'' \<mapsto> ''1'']]\<rparr>)
     = Inr (init\<lparr>placeholders := [''a'', ''b''], csv_data := [[''a'' \<mapsto> ''1'']],
                 errors := [''CSV missing required columns: b'']\<rparr>, False)"
  using validate_csv_headers_first_row
          [of "init\<lparr>placeholders := [''a'', ''b''], csv_data := [[''a'' \<mapsto> ''1'']]\<rparr>"
              "[''a'' \<mapsto> ''1'']" "[]"]
  by (auto simp: init_def)

text \<open>
  Claim C5. The merge runs over the placeholder list in order. The pass for a name whose
  token, start then name then end, is not empty works on the current working copy: the copy
  is a list of pieces with the token between them, no piece contains the token, and the pass
  puts the row's value for the name between the same pieces, or the name followed by
  \<^verbatim>\<open>_NOT_FOUND\<close> if the row has no such key; so every occurrence of the token is replaced.
  Merging the template \<^verbatim>\<open>Hello {{x}}!\<close> with a row that lacks the key x gives
  \<^verbatim>\<open>Hello x_NOT_FOUND!\<close>.
\<close>

theorem merge_template_replaces_every_occurrence:
  assumes "start @ name @ end \<noteq> []"
  shows "(\<exists>pieces. pieces \<noteq> [] \<and> content = join (start @ name @ end) pieces
            \<and> (\<forall>p \<in> set pieces. \<not> sublist (start @ name @ end) p)
            \<and> merge_loop start end data (name # names) content
                = merge_loop start end data names
                    (join (case data name of Some v \<Rightarrow> v | None \<Rightarrow> name @ ''_NOT_FOUND'') pieces))
       \<and> merge_loop start end data [] content = content
       \<and> merge_template st data
           = merge_loop (fst (current_delimiters st)) (snd (current_delimiters st)) data
               (placeholders st) (template_content st)
       \<and> merge_template (fst (load_template init ''t.txt'' (Content ''Hello {{x}}!''))) Map.empty
           = ''Hello x_NOT_FOUND!''"
proof -
  let ?new = "case data name of Some v \<Rightarrow> v | None \<Rightarrow> name @ ''_NOT_FOUND''"
  from replace_from_pieces[OF assms, of content ?new] obtain pieces where
    ps: "pieces \<noteq> []" "content = join (start @ name @ end) pieces"
        "\<forall>p \<in> set pieces. \<not> sublist (start @ name @ end) p"
        "replace_from (start @ name @ end) ?new content = join ?new pieces"
    by blast
  have "py_replace (start @ name @ end) ?new content = join ?new pieces"
    by (simp only: py_replace_def assms if_False ps(4))
  then have
    "merge_loop start end data (name # names) content
       = merge_loop start end data names (join ?new pieces)"
    by (simp only: merge_loop.simps dict_get_def)
  with ps(1,2,3) have first: "\<exists>pieces. pieces \<noteq> [] \<and> content = join (start @ name @ end) pieces
            \<and> (\<forall>p \<in> set pieces. \<not> sublist (start @ name @ end) p)
            \<and> merge_loop start end data (name # names) content
                = merge_loop start end data names (join ?new pieces)"
    by blast
  have tmpl: "merge_template st data
           = merge_loop (fst (current_delimiters st)) (snd (current_delimiters st)) data
               (placeholders st) (template_content st)"
    by (simp add: merge_template_def split: prod.splits)
  have ex: "merge_template (fst (load_template init ''t.txt'' (Content ''Hello {{x}}!''))) Map.empty
           = ''Hello x_NOT_FOUND!''"
    by (simp add: merge_template_def load_template_def extract_placeholders_def init_def
                  DEFAULT_DELIMITERS_def findall_def findall_from.simps match_here_def
                  dict_fromkeys_def insert_key_def newline_def py_replace_def dict_get_def
                  replace_from.simps)
  from first tmpl ex show ?thesis by simp
qed

theorem merge_template_replaces_every_occurrence_witness:
  "\<exists>pieces. pieces \<noteq> [] \<and> ''Dear {{x}}, {{x}}'' = join ''{{x}}'' pieces
      \<and> merge_loop ''{{'' ''}}'' [''x'' \<mapsto> ''Ann''] [''x''] ''Dear {{x}}, {{x}}''
          = join ''Ann'' pieces"
proof -
  have "''{{'' @ ''x'' @ ''}}'' \<noteq> []" by simp
  from merge_template_replaces_every_occurrence[OF this,
         of "''Dear {{x}}, {{x}}''" "[''x'' \<mapsto> ''Ann'']" "[]"]
  show ?thesis by auto
qed

text \<open>
  Claim C6. In combined mode, if the merge fails on every row, the world is left as it was,
  so no file is created, and the result is False. The world changes only if some row merged.
  If some row merged and the write of the combined file fails, for whatever reason, with
  some message, the world is left as it was, the result is False and the last entry of the
  error log reports the write with that message. If some row merged and the write succeeds,
  the world is the one the write leaves and the result is True. The text written is the
  merged rows, each followed by the separator, joined with newlines.
\<close>

theorem combined_output_zero_rows_or_failed_write:
  "((\<forall>data \<in> set (csv_data st). isl (mrg data)) \<longrightarrow>
      fst (snd (generate_combined_output_with mrg st w timestamp)) = w
      \<and> snd (snd (snd (generate_combined_output_with mrg st w timestamp))) = False)
   \<and> (fst (snd (generate_combined_output_with mrg st w timestamp)) \<noteq> w \<longrightarrow>
        (\<exists>data \<in> set (csv_data st). \<not> isl (mrg data)))
   \<and> ((\<exists>data \<in> set (csv_data st). \<not> isl (mrg data))
        \<and> write_file w (os_path_join (output_dir st) (''combined_output_'' @ timestamp @ ''.txt''))
             (join [newline]
                (concat (map (\<lambda>data. case mrg data of Inl e \<Rightarrow> [] | Inr content \<Rightarrow> [content, separator])
                           (csv_data st))))
            = Inl msg \<longrightarrow>
        fst (snd (generate_combined_output_with mrg st w timestamp)) = w
        \<and> snd (snd (snd (generate_combined_output_with mrg st w timestamp))) = False
        \<and> last (errors (fst (generate_combined_output_with mrg st w timestamp)))
            = ''Error writing combined file: '' @ msg)
   \<and> ((\<exists>data \<in> set (csv_data st). \<not> isl (mrg data))
        \<and> write_file w (os_path_join (output_dir st) (''combined_output_'' @ timestamp @ ''.txt''))
             (join [newline]
                (concat (map (\<lambda>data. case mrg data of Inl e \<Rightarrow> [] | Inr content \<Rightarrow> [content, separator])
                           (csv_data st))))
            = Inr w' \<longrightarrow>
        fst (snd (generate_combined_output_with mrg st w timestamp)) = w'
        \<and> snd (snd (snd (generate_combined_output_with mrg st w timestamp))) = True)"
proof -
  let ?ls = "combined_loop mrg 0 (csv_data st)
               \<lparr>log = errors st, disk = w, success_count = 0, combined_content = []\<rparr>"
  let ?p = "os_path_join (output_dir st) (''combined_output_'' @ timestamp @ ''.txt'')"
  let ?text = "join [newline]
                (concat (map (\<lambda>data. case mrg data of Inl e \<Rightarrow> [] | Inr content \<Rightarrow> [content, separator])
                           (csv_data st)))"
  have count: "success_count ?ls = length (filter (\<lambda>data. \<not> isl (mrg data)) (csv_data st))"
    by (simp add: combined_loop_count)
  have joined: "join [newline] (combined_content ?ls) = ?text"
    by (simp add: combined_loop_content)
  have zero: "(\<forall>data \<in> set (csv_data st). isl (mrg data)) \<Longrightarrow>
                generate_combined_output_with mrg st w timestamp
                  = (st\<lparr>errors := log ?ls\<rparr>, w, [], False)"
  proof -
    assume "\<forall>data \<in> set (csv_data st). isl (mrg data)"
    then have "success_count ?ls = 0" using count by (simp add: filter_empty_conv)
    then show ?thesis by (simp add: generate_combined_output_with_def Let_def)
  qed
  have failed: "(\<exists>data \<in> set (csv_data st). \<not> isl (mrg data)) \<Longrightarrow>
                   write_file w ?p ?text = Inl msg \<Longrightarrow>
                   generate_combined_output_with mrg st w timestamp
                     = (st\<lparr>errors := log ?ls @ [''Error writing combined file: '' @ msg]\<rparr>,
                        w, [], False)"
  proof -
    assume some: "\<exists>data \<in> set (csv_data st). \<not> isl (mrg data)"
      and wr: "write_file w ?p ?text = Inl msg"
    from some have "success_count ?ls \<noteq> 0" using count by (auto simp: filter_empty_conv)
    moreover from wr have "write_file w ?p (join [newline] (combined_content ?ls)) = Inl msg"
      by (simp only: joined)
    ultimately show ?thesis by (simp add: generate_combined_output_with_def Let_def)
  qed
  have written: "(\<exists>data \<in> set (csv_data st). \<not> isl (mrg data)) \<Longrightarrow>
                   write_file w ?p ?text = Inr w' \<Longrightarrow>
                   fst (snd (generate_combined_output_with mrg st w timestamp)) = w'
                   \<and> snd (snd (snd (generate_combined_output_with mrg st w timestamp))) = True"
  proof -
    assume some: "\<exists>data \<in> set (csv_data st). \<not> isl (mrg data)"
      and wr: "write_file w ?p ?text = Inr w'"
    from some have "success_count ?ls \<noteq> 0" using count by (auto simp: filter_empty_conv)
    moreover from wr have "write_file w ?p (join [newline] (combined_content ?ls)) = Inr w'"
      by (simp only: joined)
    ultimately show ?thesis by (simp add: generate_combined_output_with_def Let_def)
  qed
  have a: "(\<forall>data \<in> set (csv_data st). isl (mrg data)) \<longrightarrow>
      fst (snd (generate_combined_output_with mrg st w timestamp)) = w
      \<and> snd (snd (snd (generate_combined_output_with mrg st w timestamp))) = False"
    using zero by simp
  have b: "fst (snd (generate_combined_output_with mrg st w timestamp)) \<noteq> w \<longrightarrow>
        (\<exists>data \<in> set (csv_data st). \<not> isl (mrg data))"
    using a by blast
  have c: "(\<exists>data \<in> set (csv_data st). \<not> isl (mrg data)) \<and> write_file w ?p ?text = Inl msg \<longrightarrow>
        fst (snd (generate_combined_output_with mrg st w timestamp)) = w
        \<and> snd (snd (snd (generate_combined_output_with mrg st w timestamp))) = False
        \<and> last (errors (fst (generate_combined_output_with mrg st w timestamp)))
            = ''Error writing combined file: '' @ msg"
    using failed by simp
  have d: "(\<exists>data \<in> set (csv_data st). \<not> isl (mrg data)) \<and> write_file w ?p ?text = Inr w' \<longrightarrow>
        fst (snd (generate_combined_output_with mrg st w timestamp)) = w'
        \<and> snd (snd (snd (generate_combined_output_with mrg st w timestamp))) = True"
    using written by blast
  from a b c d show ?thesis by blast
qed

theorem combined_output_zero_rows_or_failed_write_witness:
  "fst (snd (generate_combined_output_with (\<lambda>data. Inl ''boom'')
               (init\<lparr>template_content := ''Hi'', csv_data := [Map.empty]\<rparr>)
               \<lparr>entries = [], cwd = [], refuse_open = (\<lambda>p. None), makedirs_outcome = (\<lambda>es p. Inr es)\<rparr>
               ''20260101_000000''))
     = \<lparr>entries = [], cwd = [], refuse_open = (\<lambda>p. None), makedirs_outcome = (\<lambda>es p. Inr es)\<rparr>
   \<and> snd (snd (snd (generate_combined_output_with (\<lambda>data. Inl ''boom'')
               (init\<lparr>template_content := ''Hi'', csv_data := [Map.empty]\<rparr>)
               \<lparr>entries = [], cwd = [], refuse_open = (\<lambda>p. None), makedirs_outcome = (\<lambda>es p. Inr es)\<rparr>
               ''20260101_000000'')))
     = False
   \<and> snd (snd (snd (generate_combined_output
               (init\<lparr>template_content := ''Hi'', csv_data := [Map.empty]\<rparr>)
               \<lparr>entries = [], cwd = [], refuse_open = (\<lambda>p. None), makedirs_outcome = (\<lambda>es p. Inr es)\<rparr>
               ''20260101_000000'')))
     = False
   \<and> last (errors (fst (generate_combined_output
               (init\<lparr>template_content := ''Hi'', csv_data := [Map.empty]\<rparr>)
               \<lparr>entries = [], cwd = [], refuse_open = (\<lambda>p. None), makedirs_outcome = (\<lambda>es p. Inr es)\<rparr>
               ''20260101_000000'')))
     = ''Error writing combined file: '' @
       os_error_text ENOENT ''output/combined_output_20260101_000000.txt''
   \<and> snd (snd (snd (generate_combined_output
               (init\<lparr>template_content := ''Hi'', csv_data := [Map.empty]\<rparr>)
               \<lparr>entries = [([''output''], Directory)], cwd = [], refuse_open = (\<lambda>p. None),
                  makedirs_outcome = (\<lambda>es p. Inr es)\<rparr>
               ''20260101_000000'')))
     = True"
proof -
  let ?st = "init\<lparr>template_content := ''Hi'', csv_data := [Map.empty]\<rparr>"
  let ?w = "\<lparr>entries = [], cwd = [], refuse_open = (\<lambda>p. None), makedirs_outcome = (\<lambda>es p. Inr es)\<rparr>"
  let ?wd = "\<lparr>entries = [([''output''], Directory)], cwd = [], refuse_open = (\<lambda>p. None),
               makedirs_outcome = (\<lambda>es p. Inr es)\<rparr>"
  let ?p = "''output/combined_output_20260101_000000.txt''"
  have dir: "output_dir ?st = ''output''" by (simp add: init_def)
  have path: "os_path_join ''output'' (''combined_output_'' @ ''20260101_000000'' @ ''.txt'') = ?p"
    by (simp add: os_path_join_def suffix_to_prefix)
  have sp: "split_path ?p = [''output'', ''combined_output_20260101_000000.txt'']"
    by simp
  have missing: "write_file ?w ?p content = Inl (os_error_text ENOENT ?p)" for content
    unfolding write_file_def sp by (simp add: start_of_def node_at_def)
  have there: "write_file ?wd ?p content
                 = Inr (?wd\<lparr>entries := [([''output'', ''combined_output_20260101_000000.txt''],
                                          File content),
                                         ([''output''], Directory)]\<rparr>)" for content
    unfolding write_file_def sp by (simp add: start_of_def node_at_def)
  from combined_output_zero_rows_or_failed_write
         [of ?st "\<lambda>data. Inl ''boom''" ?w "''20260101_000000''"]
  have first: "fst (snd (generate_combined_output_with (\<lambda>data. Inl ''boom'') ?st ?w ''20260101_000000'')) = ?w
     \<and> snd (snd (snd (generate_combined_output_with (\<lambda>data. Inl ''boom'') ?st ?w ''20260101_000000''))) = False"
    by simp
  from combined_output_zero_rows_or_failed_write
         [of ?st "\<lambda>data. Inr (merge_template ?st data)" ?w "''20260101_000000''"
             "os_error_text ENOENT ?p"]
  have second: "snd (snd (snd (generate_combined_output ?st ?w ''20260101_000000''))) = False
     \<and> last (errors (fst (generate_combined_output ?st ?w ''20260101_000000'')))
         = ''Error writing combined file: '' @ os_error_text ENOENT ?p"
    unfolding generate_combined_output_def dir path by (simp add: missing)
  from combined_output_zero_rows_or_failed_write
         [of ?st "\<lambda>data. Inr (merge_template ?st data)" ?wd "''20260101_000000''" _
             "?wd\<lparr>entries := [([''output'', ''combined_output_20260101_000000.txt''],
                                File (join [newline] [merge_template ?st Map.empty, separator])),
                               ([''output''], Directory)]\<rparr>"]
  have third: "snd (snd (snd (generate_combined_output ?st ?wd ''20260101_000000''))) = True"
    unfolding generate_combined_output_def dir path by (simp add: there)
  from first second third show ?thesis by simp
qed

text \<open>
  Claim C7. The placeholder list that extraction stores has no name twice, holds exactly the
  names the pattern found, and lists them by the position of their first occurrence among
  the finds. The template \<^verbatim>\<open>{{a}} and {{a}} and {{b}}\<close> gives the list a, b.
\<close>

theorem extract_placeholders_dedup_first_occurrence:
  "distinct (placeholders (extract_placeholders st))
   \<and> set (placeholders (extract_placeholders st))
       = set (findall (fst (current_delimiters st)) (snd (current_delimiters st))
                (template_content st))
   \<and> sorted_wrt (<)
       (map (first_pos (findall (fst (current_delimiters st)) (snd (current_delimiters st))
                          (template_content st)))
            (placeholders (extract_placeholders st)))
   \<and> placeholders (extract_placeholders (init\<lparr>template_content := ''{{a}} and {{a}} and {{b}}''\<rparr>))
       = [''a'', ''b'']"
proof -
  have ex: "placeholders (extract_placeholders (init\<lparr>template_content := ''{{a}} and {{a}} and {{b}}''\<rparr>))
              = [''a'', ''b'']"
    by (simp add: extract_placeholders_def init_def DEFAULT_DELIMITERS_def findall_def
                  findall_from.simps match_here_def dict_fromkeys_def insert_key_def
                  newline_def)
  have gen: "distinct (placeholders (extract_placeholders st))
     \<and> set (placeholders (extract_placeholders st))
         = set (findall (fst (current_delimiters st)) (snd (current_delimiters st))
                  (template_content st))
     \<and> sorted_wrt (<)
         (map (first_pos (findall (fst (current_delimiters st)) (snd (current_delimiters st))
                            (template_content st)))
              (placeholders (extract_placeholders st)))"
    by (cases "current_delimiters st")
       (simp add: extract_placeholders_def distinct_dict_fromkeys set_dict_fromkeys
                  dict_fromkeys_first_occurrence_order)
  from gen ex show ?thesis by blast
qed

text \<open>
  Claim C8 as the code has it. \<^verbatim>\<open>set_delimiters\<close> installs the pair it is given, without a
  check; no other call changes the pair. So in every state reached from a new generator by
  calls in which each \<^verbatim>\<open>set_delimiters\<close> receives a non-empty start and a non-empty end (the
  menu of \<^verbatim>\<open>main\<close> falls back to the braces on an empty input), both delimiters are
  non-empty.
\<close>

theorem delimiters_nonempty_reachable:
  assumes "\<forall>s e. SetDelimiters s e \<in> set calls \<longrightarrow> s \<noteq> [] \<and> e \<noteq> []"
  shows "fst (current_delimiters (run calls)) \<noteq> [] \<and> snd (current_delimiters (run calls)) \<noteq> []
         \<and> current_delimiters (set_delimiters (run calls) start end) = (start, end)"
proof -
  from assms
  have "fst (current_delimiters (run calls)) \<noteq> [] \<and> snd (current_delimiters (run calls)) \<noteq> []"
  proof (induction calls rule: rev_induct)
    case Nil
    then show ?case by (simp add: run_def init_def DEFAULT_DELIMITERS_def)
  next
    case (snoc c calls)
    then have IH: "fst (current_delimiters (run calls)) \<noteq> []
                   \<and> snd (current_delimiters (run calls)) \<noteq> []"
      by simp
    have d: "current_delimiters (run (calls @ [c])) =
               (case c of SetDelimiters s e \<Rightarrow> (s, e) | _ \<Rightarrow> current_delimiters (run calls))"
    proof -
      have "run (calls @ [c]) = step (run calls) c" by (simp add: run_def)
      then show ?thesis by (simp only: step_delimiters)
    qed
    from IH snoc.prems d show ?case
      by (cases c) auto
  qed
  moreover have "current_delimiters (set_delimiters (run calls) start end) = (start, end)"
    by (simp add: set_delimiters_def Let_def)
  ultimately show ?thesis by simp
qed

theorem delimiters_nonempty_reachable_witness:
  "current_delimiters
     (run [LoadTemplate ''t.txt'' (Content ''Dear <name>''), SetDelimiters ''<'' ''>'']) = (''<'', ''>'')
   \<and> current_delimiters
       (set_delimiters
          (run [LoadTemplate ''t.txt'' (Content ''Dear <name>''), SetDelimiters ''<'' ''>''])
          ''[['' '']]'') = (''[['', '']]'')"
proof -
  have "\<forall>s e. SetDelimiters s e \<in>
           set [LoadTemplate ''t.txt'' (Content ''Dear <name>''), SetDelimiters ''<'' ''>'']
         \<longrightarrow> s \<noteq> [] \<and> e \<noteq> []"
    by simp
  from delimiters_nonempty_reachable[OF this, of "''[[''" "'']]''"]
  show ?thesis
    by (simp add: run_def step_delimiters set_delimiters_def Let_def del: step.simps)
qed

text \<open>
  The claim as the specification states it fails: \<^verbatim>\<open>set_delimiters\<close> on a new generator
  with two empty strings installs two empty markers.
\<close>

theorem set_delimiters_installs_empty:
  "current_delimiters (run [SetDelimiters '''' '''']) = ('''', '''')"
  by (simp add: run_def init_def set_delimiters_def)

text \<open>
  Claim C9 as the code has it. When a filename field is given, is not the empty string and
  is a key of the row, the base filename is the field's value with the whitespace at both
  ends stripped and every space character replaced by an underscore; any other character
  of the stripped value, a tab or another whitespace character among them, is kept. In
  every other case the base filename is \<^verbatim>\<open>document_\<close> followed by the row's index counted
  from 1.
\<close>

theorem base_filename_strips_and_replaces_spaces:
  "(filename_field = Some f \<and> f \<noteq> [] \<and> data f = Some v \<longrightarrow>
      base_filename filename_field i data
        = map (\<lambda>c. if c = CHR '' '' then CHR ''_'' else c) (strip v)
      \<and> (\<exists>lead trail. v = lead @ strip v @ trail
            \<and> (\<forall>c \<in> set lead. isspace c) \<and> (\<forall>c \<in> set trail. isspace c))
      \<and> (strip v \<noteq> [] \<longrightarrow> \<not> isspace (hd (strip v)) \<and> \<not> isspace (last (strip v))))
   \<and> (filename_field = None \<or> filename_field = Some [] \<or> (\<exists>f. filename_field = Some f \<and> data f = None)
        \<longrightarrow> base_filename filename_field i data = ''document_'' @ str_nat (i + 1))"
proof (intro conjI impI)
  assume a: "filename_field = Some f \<and> f \<noteq> [] \<and> data f = Some v"
  then show "base_filename filename_field i data
               = map (\<lambda>c. if c = CHR '' '' then CHR ''_'' else c) (strip v)"
    by (simp add: base_filename_def py_replace_def replace_char_map)
  show "\<exists>lead trail. v = lead @ strip v @ trail
            \<and> (\<forall>c \<in> set lead. isspace c) \<and> (\<forall>c \<in> set trail. isspace c)"
    by (rule strip_parts)
  assume "strip v \<noteq> []"
  then have e: "\<not> isspace (hd (strip v)) \<and> \<not> isspace (last (strip v))" by (rule strip_ends)
  from e show "\<not> isspace (hd (strip v))" by simp
  from e show "\<not> isspace (last (strip v))" by simp
next
  assume "filename_field = None \<or> filename_field = Some []
            \<or> (\<exists>f. filename_field = Some f \<and> data f = None)"
  then show "base_filename filename_field i data = ''document_'' @ str_nat (i + 1)"
    by (auto simp: base_filename_def split: option.splits)
qed

theorem base_filename_strips_and_replaces_spaces_witness:
  "base_filename (Some ''name'') 0 [''name'' \<mapsto> '' Ann Lee ''] = ''Ann_Lee''
   \<and> base_filename None 0 [''name'' \<mapsto> '' Ann Lee ''] = ''document_1''"
proof -
  have s: "strip '' Ann Lee '' = ''Ann Lee''" by (simp add: strip_def isspace_def)
  from base_filename_strips_and_replaces_spaces
         [of "Some ''name''" "''name''" "[''name'' \<mapsto> '' Ann Lee '']" "'' Ann Lee ''" 0]
  have "base_filename (Some ''name'') 0 [''name'' \<mapsto> '' Ann Lee ''] = ''Ann_Lee''"
    by (simp add: s)
  moreover from base_filename_strips_and_replaces_spaces
         [of None "''name''" "[''name'' \<mapsto> '' Ann Lee '']" "'' Ann Lee ''" 0]
  have "base_filename None 0 [''name'' \<mapsto> '' Ann Lee ''] = ''document_1''"
    by (simp add: str_nat.simps)
  ultimately show ?thesis by simp
qed

text \<open>
  The claim as the specification states it fails: a tab inside the value is whitespace and
  stays in the base filename.
\<close>

theorem base_filename_keeps_tab:
  "isspace (CHR 0x09)
   \<and> base_filename (Some ''name'') 0 [''name'' \<mapsto> ''a'' @ [CHR 0x09] @ ''b'']
       = ''a'' @ [CHR 0x09] @ ''b''"
  by (simp add: isspace_def base_filename_def strip_def py_replace_def replace_char_map)

text \<open>
  Claim C10 as the code has it. Loading a readable template whose text is empty returns True
  and stores the empty text. The placeholder list is then empty unless both delimiters are
  empty, where the pattern matches the empty text once and the list holds the empty name.
  A following \<^verbatim>\<open>generate_output\<close> returns False, logs that no template is loaded and does
  not touch the world, since readiness asks for a non-empty template text.
\<close>

theorem load_empty_template_then_generate:
  "snd (load_template st path (Content '''')) = True
   \<and> template_content (fst (load_template st path (Content ''''))) = ''''
   \<and> placeholders (fst (load_template st path (Content '''')))
       = (if current_delimiters st = ('''', '''') then [''''] else [])
   \<and> generate_output (fst (load_template st path (Content ''''))) w fmt field ts
       = Inr ((fst (load_template st path (Content '''')))
                \<lparr>errors := errors st @ [''No template loaded'']\<rparr>, w, [], False)"
  by (cases "current_delimiters st")
     (auto simp: load_template_def extract_placeholders_def findall_Nil dict_fromkeys_def
                 insert_key_def generate_output_def ready_to_generate_def)

text \<open>
  The claim as the specification states it fails on a generator whose delimiters were both
  set to the empty string: loading the empty template leaves one placeholder.
\<close>

theorem load_empty_template_empty_delimiters:
  "placeholders (fst (load_template (run [SetDelimiters '''' '''']) ''t.txt'' (Content '''')))
     = ['''']"
  by (simp add: run_def init_def set_delimiters_def load_template_def extract_placeholders_def
                findall_Nil dict_fromkeys_def insert_key_def)

end
